theory Spec2Isabelle
  imports Complex_Main
begin

section \<open>Text\<close>

text \<open>
  A Python \<open>str\<close> is a sequence of Unicode code points, and \<open>len\<close> counts code points.
  A character is therefore a natural number (its code point) and a string a list of them.
  \<open>py_str\<close> reads an ASCII literal as such a string.
\<close>

type_synonym uchar = nat
type_synonym str = "uchar list"

definition py_str :: "string \<Rightarrow> str" where
  "py_str s = map of_char s"

abbreviation NL :: uchar where "NL \<equiv> 10"
abbreviation SP :: uchar where "SP \<equiv> 32"
abbreviation BANG :: uchar where "BANG \<equiv> 33"
abbreviation STAR :: uchar where "STAR \<equiv> 42"
abbreviation HYPHEN :: uchar where "HYPHEN \<equiv> 45"
abbreviation DOT :: uchar where "DOT \<equiv> 46"
abbreviation QMARK :: uchar where "QMARK \<equiv> 63"
abbreviation BACKTICK :: uchar where "BACKTICK \<equiv> 96"
abbreviation BULLET :: uchar where "BULLET \<equiv> 8226"

text \<open>
  The class \<open>\s\<close> of \<open>re\<close> on a \<open>str\<close> pattern and the characters removed by
  \<open>str.strip()\<close> are the same set, the interpreter's Unicode whitespace:
  U+0009..U+000D, U+001C..U+0020, U+0085, U+00A0, U+1680, U+2000..U+200A, U+2028, U+2029,
  U+202F, U+205F, U+3000.
\<close>

definition is_space :: "uchar \<Rightarrow> bool" where
  "is_space c \<longleftrightarrow>
     (9 \<le> c \<and> c \<le> 13) \<or> (28 \<le> c \<and> c \<le> 32) \<or> c = 133 \<or> c = 160 \<or> c = 5760 \<or>
     (8192 \<le> c \<and> c \<le> 8202) \<or> c = 8232 \<or> c = 8233 \<or> c = 8239 \<or> c = 8287 \<or> c = 12288"

text \<open>
  The class \<open>\d\<close> on a \<open>str\<close> pattern is the Unicode category Nd: blocks of ten digits
  starting at the code points of \<open>decimal_blocks\<close>, and the fifty mathematical digits
  U+1D7CE..U+1D7FF (the table of Unicode 14, the one of CPython 3.11).
\<close>

definition decimal_blocks :: "nat list" where
  "decimal_blocks =
     [48, 1632, 1776, 1984, 2406, 2534, 2662, 2790, 2918, 3046, 3174, 3302, 3430, 3558,
      3664, 3792, 3872, 4160, 4240, 6112, 6160, 6470, 6608, 6784, 6800, 6992, 7088, 7232,
      7248, 42528, 43216, 43264, 43472, 43504, 43600, 44016, 65296, 66720, 68912, 69734,
      69872, 69942, 70096, 70384, 70736, 70864, 71248, 71360, 71472, 71904, 72016, 72784,
      73040, 73120, 92768, 92864, 93008, 123200, 123632, 125264, 130032]"

definition is_decimal :: "uchar \<Rightarrow> bool" where
  "is_decimal c \<longleftrightarrow>
     list_ex (\<lambda>b. b \<le> c \<and> c < b + 10) decimal_blocks \<or> (120782 \<le> c \<and> c \<le> 120831)"

text \<open>\<open>s.strip()\<close>: leading and trailing whitespace removed.\<close>

definition strip :: "str \<Rightarrow> str" where
  "strip s = rev (dropWhile is_space (rev (dropWhile is_space s)))"

text \<open>\<open>sep.join(xs)\<close>.\<close>

fun join :: "str \<Rightarrow> str list \<Rightarrow> str" where
  "join sep [] = []"
| "join sep [x] = x"
| "join sep (x # y # ys) = x @ sep @ join sep (y # ys)"

section \<open>The chunker of \<open>generate_voice_chunked\<close> (lines 170 to 184)\<close>

text \<open>
  \<open>re.split(r'(?<=[.!?])\s+|(?<=\.\.\.)\s+', text)\<close>. A separator starts at a whitespace
  character that one of the two lookbehinds accepts and is the whole whitespace run from
  there (\<open>\s+\<close> is greedy). \<open>prev\<close> is the text before the position, last character
  first; \<open>piece\<close> is the part of the current sentence read so far.
\<close>

definition boundary_behind :: "str \<Rightarrow> bool" where
  "boundary_behind prev \<longleftrightarrow>
     (case prev of [] \<Rightarrow> False | p # _ \<Rightarrow> p = DOT \<or> p = BANG \<or> p = QMARK) \<or>
     take 3 prev = [DOT, DOT, DOT]"

function re_split_go :: "str \<Rightarrow> str \<Rightarrow> str \<Rightarrow> str list" where
  "re_split_go prev piece [] = [piece]"
| "re_split_go prev piece (c # cs) =
     (if is_space c \<and> boundary_behind prev
      then piece # re_split_go (rev (takeWhile is_space cs) @ c # prev) [] (dropWhile is_space cs)
      else re_split_go (c # prev) (piece @ [c]) cs)"
  by pat_completeness auto
termination
  by (relation "measure (\<lambda>(prev, piece, xs). length xs)")
     (auto simp: length_dropWhile_le less_Suc_eq_le)

definition split_sentences :: "str \<Rightarrow> str list" where
  "split_sentences txt = re_split_go [] [] txt"

text \<open>
  The loop over \<open>sentences\<close>: the state is \<open>chunks\<close> and \<open>current_chunk\<close>. An empty
  Python string is false, so \<open>if current_chunk:\<close> is \<open>current_chunk \<noteq> []\<close>.
\<close>

fun chunk_loop :: "str list \<Rightarrow> str \<Rightarrow> str list \<Rightarrow> str list \<times> str" where
  "chunk_loop chunks current_chunk [] = (chunks, current_chunk)"
| "chunk_loop chunks current_chunk (sentence # sentences) =
     (if length current_chunk + length sentence < 400
      then chunk_loop chunks (current_chunk @ sentence @ [SP]) sentences
      else chunk_loop (if current_chunk \<noteq> [] then chunks @ [strip current_chunk] else chunks)
             (sentence @ [SP]) sentences)"

definition chunk_text :: "str \<Rightarrow> str list" where
  "chunk_text txt =
     (case chunk_loop [] [] (split_sentences txt) of
        (chunks, current_chunk) \<Rightarrow>
          if current_chunk \<noteq> [] then chunks @ [strip current_chunk] else chunks)"

section \<open>\<open>re.sub\<close>\<close>

text \<open>
  \<open>re.sub(pattern, repl, string)\<close> reads the string from left to right. At each position
  it tries the pattern; on a match it writes the replacement and goes on behind the match,
  otherwise it copies one character and goes on at the next position. A matcher stands for
  a pattern together with its replacement: given the character before the position
  (\<open>None\<close> at the start of the string) and the text from the position on, it answers
  \<open>Some (replacement, length of the match)\<close> or \<open>None\<close>. Every pattern of this program
  matches at least one character, so a match of length 0 does not occur; the function
  treats it as no match.
\<close>

type_synonym matcher = "uchar option \<Rightarrow> str \<Rightarrow> (str \<times> nat) option"

function re_sub :: "matcher \<Rightarrow> uchar option \<Rightarrow> str \<Rightarrow> str" where
  "re_sub m prev [] = []"
| "re_sub m prev (c # cs) =
     (case m prev (c # cs) of
        None \<Rightarrow> c # re_sub m (Some c) cs
      | Some (rep, n) \<Rightarrow>
          if n = 0 then c # re_sub m (Some c) cs
          else rep @ re_sub m (Some (last (take n (c # cs)))) (drop (n - 1) cs))"
  by pat_completeness auto
termination
  by (relation "measure (\<lambda>(m, prev, xs). length xs)") auto

text \<open>
  \<open>d(.+?)d\<close> replaced by \<open>\1\<close>, for a delimiter \<open>d\<close>. The group is lazy: it takes one
  character, which \<open>.\<close> requires not to be a newline, and one more each time the closing
  delimiter does not follow. \<open>lazy_until d xs\<close> is the group and the text behind the closing
  delimiter.
\<close>

fun lazy_until :: "str \<Rightarrow> str \<Rightarrow> (str \<times> str) option" where
  "lazy_until d [] = None"
| "lazy_until d (c # cs) =
     (if c = NL then None
      else if take (length d) cs = d then Some ([c], drop (length d) cs)
      else (case lazy_until d cs of None \<Rightarrow> None | Some (g, r) \<Rightarrow> Some (c # g, r)))"

definition m_wrapped :: "str \<Rightarrow> matcher" where
  "m_wrapped d prev xs =
     (if take (length d) xs = d
      then (case lazy_until d (drop (length d) xs) of
              None \<Rightarrow> None
            | Some (g, r) \<Rightarrow> Some (g, length xs - length r))
      else None)"

text \<open>
  With \<open>re.MULTILINE\<close>, \<open>^\<close> matches at the start of the string and behind each newline.
\<close>

definition at_line_start :: "uchar option \<Rightarrow> bool" where
  "at_line_start prev \<longleftrightarrow> prev = None \<or> prev = Some NL"

text \<open>
  \<open>^\s*[-*\<bullet>]\s+\<close> replaced by the empty string. No whitespace character is one of the
  three markers, so the greedy \<open>\s*\<close> ends where the whitespace ends, and the greedy
  \<open>\s+\<close> takes the whole run behind the marker.
\<close>

definition m_bullet :: matcher where
  "m_bullet prev xs =
     (if at_line_start prev
      then (case dropWhile is_space xs of
              [] \<Rightarrow> None
            | b # r \<Rightarrow>
                if (b = HYPHEN \<or> b = STAR \<or> b = BULLET) \<and> takeWhile is_space r \<noteq> []
                then Some ([], length (takeWhile is_space xs) + 1 + length (takeWhile is_space r))
                else None)
      else None)"

text \<open>
  \<open>^\s*\d+\.\s+\<close> replaced by the empty string. Whitespace, digits and the dot are
  disjoint, so each greedy part ends where its class ends.
\<close>

definition m_ordinal :: matcher where
  "m_ordinal prev xs =
     (if at_line_start prev
      then (let r = dropWhile is_space xs; ds = takeWhile is_decimal r in
            case dropWhile is_decimal r of
              [] \<Rightarrow> None
            | p # r' \<Rightarrow>
                if ds \<noteq> [] \<and> p = DOT \<and> takeWhile is_space r' \<noteq> []
                then Some ([], length (takeWhile is_space xs) + length ds + 1 +
                               length (takeWhile is_space r'))
                else None)
      else None)"

text \<open>
  \<open>[cls]{lo,hi}\<close> (with \<open>hi = None\<close> for \<open>{lo,}\<close>, and \<open>+\<close> for \<open>{1,}\<close>) replaced by
  \<open>rep\<close>: the match is greedy, the run of the class from the position on, cut at \<open>hi\<close>.
\<close>

definition m_run :: "(uchar \<Rightarrow> bool) \<Rightarrow> nat \<Rightarrow> nat option \<Rightarrow> str \<Rightarrow> matcher" where
  "m_run cls lo hi rep prev xs =
     (let n = length (takeWhile cls xs) in
      if lo \<le> n then Some (rep, case hi of None \<Rightarrow> n | Some h \<Rightarrow> min h n) else None)"

text \<open>\<open>([.!?])([A-Z])\<close> replaced by \<open>\1 \2\<close>.\<close>

definition m_punct_capital :: matcher where
  "m_punct_capital prev xs =
     (case xs of
        p # u # _ \<Rightarrow>
          if (p = DOT \<or> p = BANG \<or> p = QMARK) \<and> 65 \<le> u \<and> u \<le> 90
          then Some ([p, SP, u], 2) else None
      | _ \<Rightarrow> None)"

text \<open>
  The character class of line 226, replaced by the empty string: the nineteen characters
  \<open># @ $ % ^ & * _ + = [ ] { } |\<close>, backslash, \<open>< > ~\<close> (code points 35, 64, 36, 37,
  94, 38, 42, 95, 43, 61, 91, 93, 123, 125, 124, 92, 60, 62, 126).
\<close>

definition blocklist :: "uchar list" where
  "blocklist = [35, 64, 36, 37, 94, 38, 42, 95, 43, 61, 91, 93, 123, 125, 124, 92, 60, 62, 126]"

definition m_blocklist :: matcher where
  "m_blocklist prev xs =
     (case xs of [] \<Rightarrow> None | c # _ \<Rightarrow> if c \<in> set blocklist then Some ([], 1) else None)"

text \<open>\<open>\s+\.\<close> replaced by \<open>.\<close>: the whitespace run must end at a dot.\<close>

definition m_space_dot :: matcher where
  "m_space_dot prev xs =
     (case dropWhile is_space xs of
        [] \<Rightarrow> None
      | p # _ \<Rightarrow>
          if takeWhile is_space xs \<noteq> [] \<and> p = DOT
          then Some ([DOT], length (takeWhile is_space xs) + 1) else None)"

section \<open>The normalizer \<open>clean_text_for_tts\<close>\<close>

definition clean_text_for_tts :: "str \<Rightarrow> str" where
  "clean_text_for_tts text0 =
     (let t = re_sub (m_wrapped [STAR, STAR]) None text0;
          t = re_sub (m_wrapped [STAR]) None t;
          t = re_sub (m_wrapped [BACKTICK]) None t;
          t = re_sub m_bullet None t;
          t = re_sub m_ordinal None t;
          t = re_sub (m_run (\<lambda>c. \<not> (\<not> is_space c \<or> c = DOT)) 1 None [SP]) None t;
          t = re_sub m_punct_capital None t;
          t = re_sub (m_run (\<lambda>c. c = DOT) 9 None
                 [DOT, DOT, DOT, DOT, DOT, DOT, DOT, DOT, DOT, DOT, DOT, DOT, DOT, DOT]) None t;
          t = re_sub (m_run (\<lambda>c. c = DOT) 3 (Some 8) [DOT, DOT, DOT]) None t;
          t = re_sub (m_run (\<lambda>c. c = BANG) 2 None [BANG]) None t;
          t = re_sub (m_run (\<lambda>c. c = QMARK) 2 None [QMARK]) None t;
          t = re_sub m_blocklist None t;
          t = re_sub m_space_dot None t;
          t = re_sub (m_run is_space 2 None [SP]) None t
      in strip t)"

section \<open>The endpoints\<close>

text \<open>
  A JSON value as \<open>request.get_json()\<close> and \<open>response.json()\<close> return it and as
  \<open>jsonify\<close> takes it: \<open>None\<close>, a \<open>bool\<close>, a number (an \<open>int\<close> or a finite \<open>float\<close>, as a
  rational), a \<open>str\<close>, a \<open>list\<close>, or a \<open>dict\<close> given by the list of its items, read with
  \<open>map_of\<close>. \<open>truthy v\<close> is the truth value of \<open>v\<close> in a condition: \<open>not v\<close> is
  \<open>\<not> truthy v\<close>.
\<close>

datatype json =
    JNull
  | JBool bool
  | JNum rat
  | JStr str
  | JArr "json list"
  | JObj "(str \<times> json) list"

fun truthy :: "json \<Rightarrow> bool" where
  "truthy JNull = False"
| "truthy (JBool b) = b"
| "truthy (JNum q) = (q \<noteq> 0)"
| "truthy (JStr s) = (s \<noteq> [])"
| "truthy (JArr xs) = (xs \<noteq> [])"
| "truthy (JObj kvs) = (kvs \<noteq> [])"

text \<open>
  \<open>data.get(key, default)\<close>: \<open>None\<close> stands for the \<open>AttributeError\<close> raised when
  \<open>data\<close> is not a \<open>dict\<close>.
\<close>

fun dict_get :: "json \<Rightarrow> str \<Rightarrow> json \<Rightarrow> json option" where
  "dict_get (JObj kvs) key dflt =
     Some (case map_of kvs key of None \<Rightarrow> dflt | Some v \<Rightarrow> v)"
| "dict_get _ key dflt = None"

text \<open>
  The configuration read from the environment at start (lines 19, 20 and 25):
  \<open>os.getenv\<close> gives \<open>None\<close> or a string, and \<open>not X\<close> holds for \<open>None\<close> and for the
  empty string.
\<close>

record config =
  CLOUDFLARE_ACCOUNT_ID :: "str option"
  CLOUDFLARE_API_TOKEN :: "str option"
  GEMINI_API_KEY :: "str option"

definition env_unset :: "str option \<Rightarrow> bool" where
  "env_unset v \<longleftrightarrow> (case v of None \<Rightarrow> True | Some s \<Rightarrow> s = [])"

text \<open>
  What a view function returns: \<open>jsonify(body), status\<close> (status 200 when none is given),
  the file of \<open>send_file\<close>, or an exception that leaves the view function, which Flask
  answers with status 500.
\<close>

datatype response =
    Json_response nat json
  | Wav_file "nat list"
  | Unhandled_exception

definition error_body :: "str \<Rightarrow> json" where
  "error_body msg = JObj [(py_str ''error'', JStr msg)]"

text \<open>
  The call to Cloudflare in the \<open>try\<close> block of \<open>generate_voice\<close> (lines 81 to 125), by
  the way the block is left: a raised \<open>Timeout\<close>, another \<open>RequestException\<close> or any other
  exception, each but the first with \<open>str(e)\<close>; a reply of status 200 whose
  \<open>result.audio\<close> decodes to the given bytes; a reply of status 200 without
  \<open>result.audio\<close>; a reply of another status, with its body when that is JSON.
\<close>

datatype upstream =
    Raises_timeout
  | Raises_request_exception str
  | Raises_exception str
  | Replies_audio "nat list"
  | Replies_no_audio
  | Replies_error nat "json option"

record payload =
  prompt :: json
  lang :: str

text \<open>\<open>str(n)\<close> for a status code in an f-string.\<close>

function decimal :: "nat \<Rightarrow> str" where
  "decimal n = (if n < 10 then [48 + n] else decimal (n div 10) @ [48 + n mod 10])"
  by pat_completeness auto
termination
  by (relation "measure id") auto

text \<open>
  Lines 111 to 116: \<open>error_data.get('errors', [{}])[0].get('message', error_message)\<close>,
  where every exception leaves the default message in place.
\<close>

definition error_message :: "nat \<Rightarrow> json option \<Rightarrow> json" where
  "error_message status body =
     (let dflt = JStr (py_str ''Cloudflare API Error: '' @ decimal status) in
      case body of
        Some (JObj error_data) \<Rightarrow>
          (case (case map_of error_data (py_str ''errors'') of
                   None \<Rightarrow> JArr [JObj []] | Some v \<Rightarrow> v) of
             JArr (JObj e # _) \<Rightarrow>
               (case map_of e (py_str ''message'') of None \<Rightarrow> dflt | Some m \<Rightarrow> m)
           | _ \<Rightarrow> dflt)
      | _ \<Rightarrow> dflt)"

text \<open>
  \<open>lang_map.get(language, 'en')\<close>: \<open>None\<close> stands for the \<open>TypeError\<close> of an unhashable
  key (a list or a dict).
\<close>

definition lang_map :: "str \<rightharpoonup> str" where
  "lang_map =
     [py_str ''EN'' \<mapsto> py_str ''en'', py_str ''ES'' \<mapsto> py_str ''es'',
      py_str ''FR'' \<mapsto> py_str ''fr'', py_str ''ZH'' \<mapsto> py_str ''zh'',
      py_str ''JP'' \<mapsto> py_str ''ja'', py_str ''KR'' \<mapsto> py_str ''ko'']"

fun lang_map_get :: "json \<Rightarrow> str option" where
  "lang_map_get (JStr s) = Some (case lang_map s of None \<Rightarrow> py_str ''en'' | Some l \<Rightarrow> l)"
| "lang_map_get (JArr _) = None"
| "lang_map_get (JObj _) = None"
| "lang_map_get _ = Some (py_str ''en'')"

definition generate_voice :: "config \<Rightarrow> json \<Rightarrow> (payload \<Rightarrow> upstream) \<Rightarrow> response" where
  "generate_voice cfg data cloudflare =
     (if env_unset (CLOUDFLARE_ACCOUNT_ID cfg) \<or> env_unset (CLOUDFLARE_API_TOKEN cfg)
      then Json_response 500 (error_body
             (py_str ''Cloudflare credentials not configured. Please check your .env file.''))
      else
        case dict_get data (py_str ''text'') (JStr []) of
          None \<Rightarrow> Unhandled_exception
        | Some txt \<Rightarrow>
           (case dict_get data (py_str ''language'') (JStr (py_str ''EN'')) of
              None \<Rightarrow> Unhandled_exception
            | Some language \<Rightarrow>
                if \<not> truthy txt then Json_response 400 (error_body (py_str ''Text is required''))
                else
                 (case lang_map_get language of
                    None \<Rightarrow> Unhandled_exception
                  | Some l \<Rightarrow>
                     (case cloudflare \<lparr>prompt = txt, lang = l\<rparr> of
                        Replies_audio audio_bytes \<Rightarrow> Wav_file audio_bytes
                      | Replies_no_audio \<Rightarrow>
                          Json_response 500 (error_body (py_str ''Invalid response format from API''))
                      | Replies_error status body \<Rightarrow>
                          Json_response status
                            (JObj [(py_str ''error'', error_message status body)])
                      | Raises_timeout \<Rightarrow>
                          Json_response 504
                            (error_body (py_str ''Request timed out. Please try again.''))
                      | Raises_request_exception e \<Rightarrow>
                          Json_response 500 (error_body (py_str ''Network error: '' @ e))
                      | Raises_exception e \<Rightarrow>
                          Json_response 500 (error_body (py_str ''Server error: '' @ e))))))"

text \<open>
  \<open>generate_voice_chunked\<close>. \<open>re.split\<close> raises a \<open>TypeError\<close> on a \<open>text\<close> that is not a
  string. The call \<open>generate_voice()\<close> of line 188 reads the same request.
\<close>

definition generate_voice_chunked ::
  "config \<Rightarrow> json \<Rightarrow> (payload \<Rightarrow> upstream) \<Rightarrow> response" where
  "generate_voice_chunked cfg data cloudflare =
     (if env_unset (CLOUDFLARE_ACCOUNT_ID cfg) \<or> env_unset (CLOUDFLARE_API_TOKEN cfg)
      then Json_response 500 (error_body (py_str ''Cloudflare credentials not configured.''))
      else
        case dict_get data (py_str ''text'') (JStr []) of
          None \<Rightarrow> Unhandled_exception
        | Some txt \<Rightarrow>
           (case dict_get data (py_str ''language'') (JStr (py_str ''EN'')) of
              None \<Rightarrow> Unhandled_exception
            | Some language \<Rightarrow>
                if \<not> truthy txt then Json_response 400 (error_body (py_str ''Text is required''))
                else
                 (case txt of
                    JStr s \<Rightarrow>
                      (let chunks = chunk_text s in
                       if length chunks \<le> 1 then generate_voice cfg data cloudflare
                       else Json_response 200
                              (JObj [(py_str ''chunks'', JArr (map JStr chunks)),
                                     (py_str ''total'', JNum (of_nat (length chunks)))]))
                  | _ \<Rightarrow> Unhandled_exception)))"

text \<open>
  \<open>chat_with_gemini\<close>. The conversation with the model (lines 253 to 326, inside the
  \<open>try\<close>) is the parameter \<open>gemini\<close>: \<open>Inl\<close> with \<open>str(e)\<close> when an exception is raised
  there, \<open>Inr\<close> with \<open>response.text\<close> otherwise.
\<close>

definition chat_with_gemini :: "config \<Rightarrow> json \<Rightarrow> str + str \<Rightarrow> response" where
  "chat_with_gemini cfg data gemini =
     (if env_unset (GEMINI_API_KEY cfg)
      then Json_response 500 (error_body
             (py_str ''Gemini API key not configured. Please check your .env file.''))
      else
        case dict_get data (py_str ''message'') (JStr []) of
          None \<Rightarrow> Unhandled_exception
        | Some message \<Rightarrow>
           (case dict_get data (py_str ''history'') (JArr []) of
              None \<Rightarrow> Unhandled_exception
            | Some conversation_history \<Rightarrow>
                if \<not> truthy message
                then Json_response 400 (error_body (py_str ''Message is required''))
                else
                 (case gemini of
                    Inl e \<Rightarrow> Json_response 500 (error_body (py_str ''Gemini API error: '' @ e))
                  | Inr ai_response \<Rightarrow>
                      Json_response 200
                        (JObj [(py_str ''response'', JStr (clean_text_for_tts ai_response)),
                               (py_str ''success'', JBool True)]))))"

section \<open>Notions used to state the properties\<close>

text \<open>
  \<open>glue g\<close> is the buffer \<open>current_chunk\<close> after the sentences of \<open>g\<close> were appended to
  the empty buffer: each sentence followed by one space. \<open>fits g\<close>: the chunk made from
  the group \<open>g\<close> has at most 400 characters, or \<open>g\<close> is one sentence of more than 400.
\<close>

definition glue :: "str list \<Rightarrow> str" where
  "glue g = concat (map (\<lambda>s. s @ [SP]) g)"

definition fits :: "str list \<Rightarrow> bool" where
  "fits g \<longleftrightarrow> length (strip (glue g)) \<le> 400 \<or> (\<exists>s. g = [s] \<and> 400 < length s)"

text \<open>
  Whitespace equivalence, as claim C3 words it: two strings are equivalent when they are
  equal after every whitespace run is collapsed to one space
  (\<open>re.sub(r'\s+', ' ', s)\<close>) and the result is trimmed.
\<close>

definition collapse_ws :: "str \<Rightarrow> str" where
  "collapse_ws s = re_sub (m_run is_space 1 None [SP]) None s"

definition ws_normal :: "str \<Rightarrow> str" where
  "ws_normal s = strip (collapse_ws s)"

text \<open>
  The words of a string, as \<open>s.split()\<close> gives them: the maximal runs of characters that
  are not whitespace. \<open>w\<close> is the word read so far.
\<close>

fun words_acc :: "str \<Rightarrow> str \<Rightarrow> str list" where
  "words_acc w [] = (if w = [] then [] else [w])"
| "words_acc w (c # cs) =
     (if is_space c then (if w = [] then words_acc [] cs else w # words_acc [] cs)
      else words_acc (w @ [c]) cs)"

definition split_words :: "str \<Rightarrow> str list" where
  "split_words s = words_acc [] s"

definition rstrip :: "str \<Rightarrow> str" where
  "rstrip s = rev (dropWhile is_space (rev s))"

text \<open>
  Fully cleaned text, for claim C5: text on which no rule of the normalizer has anything
  left to do. \<open>no_run cls n s\<close>: \<open>s\<close> has no \<open>n\<close> consecutive characters of the class
  \<open>cls\<close>. \<open>no_pair P s\<close>: no two neighbours \<open>a\<close>, \<open>b\<close> of \<open>s\<close> satisfy \<open>P a b\<close>.
\<close>

fun no_run :: "(uchar \<Rightarrow> bool) \<Rightarrow> nat \<Rightarrow> str \<Rightarrow> bool" where
  "no_run cls n [] = True"
| "no_run cls n (c # cs) = (length (takeWhile cls (c # cs)) < n \<and> no_run cls n cs)"

fun no_pair :: "(uchar \<Rightarrow> uchar \<Rightarrow> bool) \<Rightarrow> str \<Rightarrow> bool" where
  "no_pair P (a # b # cs) = (\<not> P a b \<and> no_pair P (b # cs))"
| "no_pair P [a] = True"
| "no_pair P [] = True"

text \<open>
  A list marker at the start of the text: a hyphen, star or bullet followed by whitespace,
  or digits followed by a dot and whitespace.
\<close>

definition starts_with_bullet :: "str \<Rightarrow> bool" where
  "starts_with_bullet s =
     (case s of
        b # w # _ \<Rightarrow> (b = HYPHEN \<or> b = STAR \<or> b = BULLET) \<and> is_space w
      | _ \<Rightarrow> False)"

definition starts_with_ordinal :: "str \<Rightarrow> bool" where
  "starts_with_ordinal s =
     (takeWhile is_decimal s \<noteq> [] \<and>
      (case dropWhile is_decimal s of p # w # _ \<Rightarrow> p = DOT \<and> is_space w | _ \<Rightarrow> False))"

text \<open>
  \<open>fully_cleaned s\<close>: \<open>s\<close> has no backtick and no blocklisted symbol (so no star), its only
  whitespace is the single space, it neither starts nor ends with whitespace, it has no
  two spaces in a row, no four dots in a row, no \<open>!!\<close> and no \<open>??\<close>, no space before a
  dot, no capital letter right behind \<open>.\<close>, \<open>!\<close> or \<open>?\<close>, and no list marker at its start.
\<close>

definition fully_cleaned :: "str \<Rightarrow> bool" where
  "fully_cleaned s \<longleftrightarrow>
     list_all (\<lambda>c. c \<noteq> BACKTICK \<and> c \<notin> set blocklist \<and> (is_space c \<longrightarrow> c = SP)) s \<and>
     (s = [] \<or> (\<not> is_space (hd s) \<and> \<not> is_space (last s))) \<and>
     no_run is_space 2 s \<and>
     no_run (\<lambda>c. c = DOT) 4 s \<and>
     no_run (\<lambda>c. c = BANG) 2 s \<and>
     no_run (\<lambda>c. c = QMARK) 2 s \<and>
     no_pair (\<lambda>a b. is_space a \<and> b = DOT) s \<and>
     no_pair (\<lambda>a b. (a = DOT \<or> a = BANG \<or> a = QMARK) \<and> 65 \<le> b \<and> b \<le> 90) s \<and>
     \<not> starts_with_bullet s \<and>
     \<not> starts_with_ordinal s"

text \<open>
  \<open>quiet m prev xs\<close>: the matcher \<open>m\<close> matches at no position of \<open>xs\<close>.
\<close>

fun quiet :: "matcher \<Rightarrow> uchar option \<Rightarrow> str \<Rightarrow> bool" where
  "quiet m prev [] = True"
| "quiet m prev (c # cs) = (m prev (c # cs) = None \<and> quiet m (Some c) cs)"

section \<open>Evaluation\<close>

declare re_sub.simps [simp del]

lemmas py_eval =
  re_sub.simps(2) clean_text_for_tts_def py_str_def m_wrapped_def m_bullet_def m_ordinal_def m_run_def
  m_punct_capital_def m_blocklist_def m_space_dot_def at_line_start_def is_space_def
  is_decimal_def decimal_blocks_def blocklist_def strip_def Let_def
  chunk_text_def split_sentences_def boundary_behind_def

lemmas http_eval =
  generate_voice_def generate_voice_chunked_def chat_with_gemini_def env_unset_def
  error_body_def

section \<open>Trimming\<close>

lemma length_strip_le: "length (strip s) \<le> length s"
proof -
  have "length (dropWhile is_space (rev (dropWhile is_space s)))
          \<le> length (rev (dropWhile is_space s))"
    by (rule length_dropWhile_le)
  also have "\<dots> \<le> length s" by (simp add: length_dropWhile_le)
  finally show ?thesis by (simp add: strip_def)
qed

lemma strip_snoc_space: "is_space c \<Longrightarrow> strip (s @ [c]) = strip s"
proof -
  assume c: "is_space c"
  show ?thesis
  proof (cases "\<forall>x\<in>set s. is_space x")
    case True
    then have a: "dropWhile is_space s = []" by simp
    from True c have b: "dropWhile is_space (s @ [c]) = []" by simp
    show ?thesis by (simp only: strip_def a b)
  next
    case False
    then have "dropWhile is_space (s @ [c]) = dropWhile is_space s @ [c]"
      by (auto simp: dropWhile_append)
    then show ?thesis using c by (simp add: strip_def)
  qed
qed

lemma set_strip_subset: "set (strip s) \<subseteq> set s"
proof -
  have "set (dropWhile is_space (rev (dropWhile is_space s)))
          \<subseteq> set (rev (dropWhile is_space s))"
    using set_dropWhileD by fastforce
  moreover have "set (dropWhile is_space s) \<subseteq> set s"
    using set_dropWhileD by fastforce
  ultimately show ?thesis by (auto simp: strip_def)
qed

lemma strip_eq_rstrip: "strip s = rstrip (dropWhile is_space s)"
  by (simp add: strip_def rstrip_def)

lemma rstrip_append: "rstrip b \<noteq> [] \<Longrightarrow> rstrip (a @ b) = a @ rstrip b"
  by (auto simp: rstrip_def dropWhile_append)

lemma rstrip_snoc_space: "is_space c \<Longrightarrow> rstrip (a @ [c]) = rstrip a"
  by (simp add: rstrip_def)

lemma rstrip_last: "s \<noteq> [] \<Longrightarrow> \<not> is_space (last s) \<Longrightarrow> rstrip s = s"
  by (cases s rule: rev_cases) (simp_all add: rstrip_def)

lemma rstrip_word: "w \<noteq> [] \<Longrightarrow> \<forall>x\<in>set w. \<not> is_space x \<Longrightarrow> rstrip w = w"
  by (rule rstrip_last) simp_all

lemma dropWhile_head: "dropWhile is_space cs = d # r \<Longrightarrow> \<not> is_space d"
  by (metis hd_dropWhile list.sel(1) list.distinct(1))

lemma strip_trimmed:
  "s = [] \<or> (\<not> is_space (hd s) \<and> \<not> is_space (last s)) \<Longrightarrow> strip s = s"
proof (cases s)
  case Nil
  then show ?thesis by (simp add: strip_def)
next
  case (Cons c cs)
  assume "s = [] \<or> (\<not> is_space (hd s) \<and> \<not> is_space (last s))"
  with Cons have "\<not> is_space c" "\<not> is_space (last s)" "s \<noteq> []" by auto
  then show ?thesis using Cons by (simp add: strip_eq_rstrip rstrip_last del: last.simps)
qed

lemma rstrip_result: "rstrip s = [] \<or> \<not> is_space (last (rstrip s))"
proof (cases "dropWhile is_space (rev s)")
  case Nil
  then show ?thesis by (simp add: rstrip_def)
next
  case (Cons d r)
  then show ?thesis using dropWhile_head[OF Cons] by (simp add: rstrip_def)
qed

lemma rstrip_hd: "rstrip s \<noteq> [] \<Longrightarrow> hd (rstrip s) = hd s"
proof -
  assume ne: "rstrip s \<noteq> []"
  have "s = rstrip s @ rev (takeWhile is_space (rev s))"
    unfolding rstrip_def by (metis rev_append rev_rev_ident takeWhile_dropWhile_id)
  then show ?thesis using ne by (metis hd_append2)
qed

lemma strip_result:
  "strip s = [] \<or> (\<not> is_space (hd (strip s)) \<and> \<not> is_space (last (strip s)))"
proof (cases "strip s = []")
  case True
  then show ?thesis by simp
next
  case False
  then have ne: "rstrip (dropWhile is_space s) \<noteq> []" by (simp add: strip_eq_rstrip)
  then obtain d r where dr: "dropWhile is_space s = d # r"
    by (cases "dropWhile is_space s") (auto simp: rstrip_def)
  have "hd (strip s) = d" using rstrip_hd[OF ne] dr by (simp add: strip_eq_rstrip)
  moreover have "\<not> is_space d" using dr by (rule dropWhile_head)
  moreover have "\<not> is_space (last (strip s))"
    using rstrip_result[of "dropWhile is_space s"] ne by (simp add: strip_eq_rstrip)
  ultimately show ?thesis by simp
qed

lemma strip_strip: "strip (strip s) = strip s"
  by (rule strip_trimmed) (rule strip_result)

section \<open>Facts about \<open>re.sub\<close>\<close>

lemma re_sub_None:
  "m prev (c # cs) = None \<Longrightarrow> re_sub m prev (c # cs) = c # re_sub m (Some c) cs"
  by (simp add: re_sub.simps)

lemma re_sub_Some:
  "m prev (c # cs) = Some (rep, n) \<Longrightarrow> n \<noteq> 0 \<Longrightarrow>
     re_sub m prev (c # cs) = rep @ re_sub m (Some (last (take n (c # cs)))) (drop (n - 1) cs)"
  by (simp add: re_sub.simps)

lemma re_sub_Nil [simp]: "re_sub m prev [] = []"
  by (simp add: re_sub.simps)

lemma re_sub_quiet: "quiet m prev xs \<Longrightarrow> re_sub m prev xs = xs"
  by (induction xs arbitrary: prev) (simp_all add: re_sub_None)

lemma re_sub_set_subset_aux:
  assumes "\<forall>p ys rep n. m p ys = Some (rep, n) \<longrightarrow> set rep \<subseteq> R"
  shows "set (re_sub m prev xs) \<subseteq> set xs \<union> R"
  using assms
proof (induction m prev xs rule: re_sub.induct)
  case (1 m prev)
  then show ?case by simp
next
  case (2 m prev c cs)
  note reps = "2.prems"
  show ?case
  proof (cases "m prev (c # cs)")
    case None
    then show ?thesis using "2.IH"(1)[OF None reps] by (auto simp: re_sub_None)
  next
    case (Some a)
    obtain rep n where a: "a = (rep, n)" by (cases a)
    show ?thesis
    proof (cases "n = 0")
      case True
      then show ?thesis
        using "2.IH"(2)[OF Some a[symmetric] True reps] Some a by (auto simp: re_sub.simps)
    next
      case False
      have "set (re_sub m (Some (last (take n (c # cs)))) (drop (n - 1) cs))
              \<subseteq> set (drop (n - 1) cs) \<union> R"
        using "2.IH"(3)[OF Some a[symmetric] False reps] .
      moreover have "set (drop (n - 1) cs) \<subseteq> set cs" by (rule set_drop_subset)
      moreover have "set rep \<subseteq> R" using reps Some a by blast
      ultimately show ?thesis using Some a False by (auto simp: re_sub_Some)
    qed
  qed
qed

lemma re_sub_set_subset:
  assumes "\<And>p ys rep n. m p ys = Some (rep, n) \<Longrightarrow> set rep \<subseteq> R"
  shows "set (re_sub m prev xs) \<subseteq> set xs \<union> R"
  using assms by (intro re_sub_set_subset_aux) blast

lemma re_sub_prev_irrelevant:
  assumes "\<forall>p q ys. m p ys = m q ys"
  shows "re_sub m p xs = re_sub m q xs"
  using assms
proof (induction m p xs arbitrary: q rule: re_sub.induct)
  case (1 m prev)
  then show ?case by simp
next
  case (2 m prev c cs)
  have eq: "m q (c # cs) = m prev (c # cs)" using "2.prems" by blast
  show ?case
  proof (cases "m prev (c # cs)")
    case None
    then show ?thesis using eq "2.IH"(1)[OF None "2.prems"] by (simp add: re_sub_None)
  next
    case (Some a)
    obtain rep n where a: "a = (rep, n)" by (cases a)
    show ?thesis
    proof (cases "n = 0")
      case True
      then show ?thesis
        using "2.IH"(2)[OF Some a[symmetric] True "2.prems"] Some a eq
        by (simp add: re_sub.simps)
    next
      case False
      then show ?thesis using Some a eq by (simp add: re_sub_Some)
    qed
  qed
qed

lemma re_sub_m_run_prev:
  "re_sub (m_run cls lo hi rep) (Some x) xs = re_sub (m_run cls lo hi rep) None xs"
  by (rule re_sub_prev_irrelevant) (simp add: m_run_def)

lemma re_sub_m_run_Cons:
  "re_sub (m_run cls lo hi rep) p (c # cs) =
     (let n = length (takeWhile cls (c # cs));
          k = (case hi of None \<Rightarrow> n | Some h \<Rightarrow> min h n) in
      if lo \<le> n \<and> k \<noteq> 0 then rep @ re_sub (m_run cls lo hi rep) None (drop k (c # cs))
      else c # re_sub (m_run cls lo hi rep) None cs)"
proof -
  define n where "n = length (takeWhile cls (c # cs))"
  define k where "k = (case hi of None \<Rightarrow> n | Some h \<Rightarrow> min h n)"
  have m: "m_run cls lo hi rep p (c # cs) = (if lo \<le> n then Some (rep, k) else None)"
    unfolding n_def k_def m_run_def Let_def by (rule refl)
  have d: "k \<noteq> 0 \<Longrightarrow> drop (k - 1) cs = drop k (c # cs)"
    by (cases k) simp_all
  have "re_sub (m_run cls lo hi rep) p (c # cs) =
     (if lo \<le> n \<and> k \<noteq> 0 then rep @ re_sub (m_run cls lo hi rep) None (drop k (c # cs))
      else c # re_sub (m_run cls lo hi rep) None cs)"
    using d by (subst re_sub.simps) (simp add: m re_sub_m_run_prev)
  then show ?thesis unfolding n_def k_def Let_def .
qed

lemma re_sub_blocklist_filter:
  "re_sub m_blocklist prev xs = filter (\<lambda>c. c \<notin> set blocklist) xs"
  by (induction xs arbitrary: prev) (simp_all add: m_blocklist_def re_sub.simps)

lemma m_space_dot_rep: "m_space_dot p ys = Some (rep, n) \<Longrightarrow> set rep \<subseteq> {DOT}"
  by (auto simp: m_space_dot_def split: list.splits if_splits)

lemma m_run_rep: "m_run cls lo hi r p ys = Some (rep, n) \<Longrightarrow> set rep \<subseteq> set r"
  by (auto simp: m_run_def Let_def split: if_splits)

lemma re_sub_replicate_quiet:
  "\<forall>p ys. m p (c # ys) = None \<Longrightarrow> 0 < n \<Longrightarrow>
     re_sub m p (replicate n c @ xs) = replicate n c @ re_sub m (Some c) xs"
proof (induction n arbitrary: p)
  case 0
  then show ?case by simp
next
  case (Suc k)
  show ?case
  proof (cases k)
    case 0
    then show ?thesis using Suc.prems(1) by (simp add: re_sub_None)
  next
    case (Suc j)
    then show ?thesis using Suc.IH[OF Suc.prems(1)] Suc.prems(1) by (simp add: re_sub_None)
  qed
qed

lemma punct_capital_replicate:
  "0 < n \<Longrightarrow> re_sub m_punct_capital p (replicate n 35 @ xs) =
     replicate n 35 @ re_sub m_punct_capital (Some 35) xs"
  by (rule re_sub_replicate_quiet) (simp_all add: m_punct_capital_def split: list.split)

lemma re_split_go_nonspace:
  "\<forall>c\<in>set xs. \<not> is_space c \<Longrightarrow>
     re_split_go prev piece (xs @ ys) = re_split_go (rev xs @ prev) (piece @ xs) ys"
  by (induction xs arbitrary: prev piece) simp_all

text \<open>
  The normalizer ends with the blocklist removal, two substitutions that write only a dot
  or a space, and the trimming.
\<close>

lemma clean_text_tail:
  "\<exists>t. clean_text_for_tts x =
         strip (re_sub (m_run is_space 2 None [SP]) None
           (re_sub m_space_dot None (re_sub m_blocklist None t)))"
  unfolding clean_text_for_tts_def Let_def by (rule exI) (rule refl)

lemma clean_no_blocklisted: "set (clean_text_for_tts x) \<inter> set blocklist = {}"
proof -
  obtain t where clean: "clean_text_for_tts x =
      strip (re_sub (m_run is_space 2 None [SP]) None
        (re_sub m_space_dot None (re_sub m_blocklist None t)))"
    using clean_text_tail by blast
  let ?t12 = "re_sub m_blocklist None t"
  have 1: "set ?t12 \<inter> set blocklist = {}"
    unfolding re_sub_blocklist_filter by auto
  have 2: "set (re_sub m_space_dot None ?t12) \<subseteq> set ?t12 \<union> {DOT}"
    by (rule re_sub_set_subset) (rule m_space_dot_rep)
  have 3: "set (re_sub (m_run is_space 2 None [SP]) None (re_sub m_space_dot None ?t12))
             \<subseteq> set (re_sub m_space_dot None ?t12) \<union> set [SP]"
    by (rule re_sub_set_subset) (rule m_run_rep)
  have 4: "DOT \<notin> set blocklist" "SP \<notin> set blocklist"
    by (simp_all add: blocklist_def)
  show ?thesis
    unfolding clean
    using 1 2 3 4
      set_strip_subset[of "re_sub (m_run is_space 2 None [SP]) None
                             (re_sub m_space_dot None ?t12)"]
    by auto
qed

lemma clean_trimmed: "strip (clean_text_for_tts x) = clean_text_for_tts x"
  using clean_text_tail[of x] by (auto simp: strip_strip)

section \<open>Dot runs in the normalizer\<close>

text \<open>
  Claim C1 (the scenario of the specification): the ten dots of
  \<open>"**Hi** there..........go"\<close> do not come out as fourteen dots. Line 218 writes fourteen
  dots, and line 219 then matches them again: eight of them become three, the remaining
  six become three, and the normalizer returns six dots.
\<close>

theorem clean_ten_dots_gives_six:
  "clean_text_for_tts (py_str ''**Hi** there..........go'') = py_str ''Hi there......go''"
  by (simp add: py_eval)

theorem clean_ten_dots_gives_six_witness:
  "clean_text_for_tts (py_str ''**Hi** there..........go'') \<noteq>
     py_str ''Hi there..............go''"
  using clean_ten_dots_gives_six by (simp add: py_str_def)

section \<open>Validation in the endpoints\<close>

text \<open>
  Claim C8 says that every request to \<open>/api/generate-voice\<close> with a missing or empty
  \<open>text\<close> receives status 400. Without credentials the check of line 47 answers first,
  with status 500.
\<close>

theorem generate_voice_empty_text_no_credentials:
  "generate_voice
     \<lparr>CLOUDFLARE_ACCOUNT_ID = None, CLOUDFLARE_API_TOKEN = None, GEMINI_API_KEY = None\<rparr>
     (JObj [(py_str ''text'', JStr [])]) (\<lambda>p. Raises_timeout)
   \<noteq> Json_response 400 (JObj [(py_str ''error'', JStr (py_str ''Text is required''))])"
  by (simp add: http_eval)

text \<open>
  Claim C8, amended: every request to \<open>/api/generate-voice\<close>, made while the Cloudflare
  credentials are configured, whose JSON body is an object with a missing or empty
  \<open>text\<close> field (empty: any value that is false in Python, as the empty string is)
  receives status 400 with the body \<open>{error: "Text is required"}\<close>.
\<close>

theorem generate_voice_text_required:
  assumes "\<not> env_unset (CLOUDFLARE_ACCOUNT_ID cfg)"
    and "\<not> env_unset (CLOUDFLARE_API_TOKEN cfg)"
    and "map_of kvs (py_str ''text'') = None \<or>
         (\<exists>v. map_of kvs (py_str ''text'') = Some v \<and> \<not> truthy v)"
  shows "generate_voice cfg (JObj kvs) cloudflare =
           Json_response 400 (JObj [(py_str ''error'', JStr (py_str ''Text is required''))])"
  using assms by (auto simp: generate_voice_def error_body_def)

theorem generate_voice_text_required_witness:
  "generate_voice
     \<lparr>CLOUDFLARE_ACCOUNT_ID = Some (py_str ''acct''),
      CLOUDFLARE_API_TOKEN = Some (py_str ''token''), GEMINI_API_KEY = None\<rparr>
     (JObj [(py_str ''text'', JStr []), (py_str ''language'', JStr (py_str ''FR''))])
     (\<lambda>p. Replies_audio [82, 73, 70, 70])
   = Json_response 400 (JObj [(py_str ''error'', JStr (py_str ''Text is required''))])
   \<and> generate_voice
     \<lparr>CLOUDFLARE_ACCOUNT_ID = Some (py_str ''acct''),
      CLOUDFLARE_API_TOKEN = Some (py_str ''token''), GEMINI_API_KEY = None\<rparr>
     (JObj [(py_str ''language'', JStr (py_str ''FR''))])
     (\<lambda>p. Replies_audio [82, 73, 70, 70])
   = Json_response 400 (JObj [(py_str ''error'', JStr (py_str ''Text is required''))])"
proof
  show "generate_voice
     \<lparr>CLOUDFLARE_ACCOUNT_ID = Some (py_str ''acct''),
      CLOUDFLARE_API_TOKEN = Some (py_str ''token''), GEMINI_API_KEY = None\<rparr>
     (JObj [(py_str ''text'', JStr []), (py_str ''language'', JStr (py_str ''FR''))])
     (\<lambda>p. Replies_audio [82, 73, 70, 70])
   = Json_response 400 (JObj [(py_str ''error'', JStr (py_str ''Text is required''))])"
    by (rule generate_voice_text_required) (simp_all add: env_unset_def py_str_def)
  show "generate_voice
     \<lparr>CLOUDFLARE_ACCOUNT_ID = Some (py_str ''acct''),
      CLOUDFLARE_API_TOKEN = Some (py_str ''token''), GEMINI_API_KEY = None\<rparr>
     (JObj [(py_str ''language'', JStr (py_str ''FR''))])
     (\<lambda>p. Replies_audio [82, 73, 70, 70])
   = Json_response 400 (JObj [(py_str ''error'', JStr (py_str ''Text is required''))])"
    by (rule generate_voice_text_required) (simp_all add: env_unset_def py_str_def)
qed

text \<open>
  Claim C9: in both endpoints the credentials check comes first. A request made while a
  Cloudflare credential is absent receives status 500 with the configuration error of its
  endpoint, whatever its body is, and so never status 400.
\<close>

theorem credentials_checked_first:
  assumes "env_unset (CLOUDFLARE_ACCOUNT_ID cfg) \<or> env_unset (CLOUDFLARE_API_TOKEN cfg)"
  shows "generate_voice cfg data cloudflare =
           Json_response 500 (JObj [(py_str ''error'', JStr (py_str
             ''Cloudflare credentials not configured. Please check your .env file.''))])
       \<and> generate_voice_chunked cfg data cloudflare =
           Json_response 500 (JObj [(py_str ''error'', JStr (py_str
             ''Cloudflare credentials not configured.''))])"
  using assms by (simp add: generate_voice_def generate_voice_chunked_def error_body_def)

theorem credentials_checked_first_witness:
  "generate_voice
     \<lparr>CLOUDFLARE_ACCOUNT_ID = Some (py_str ''acct''), CLOUDFLARE_API_TOKEN = None,
      GEMINI_API_KEY = None\<rparr> (JObj [(py_str ''text'', JStr [])]) (\<lambda>p. Raises_timeout)
   = Json_response 500 (JObj [(py_str ''error'', JStr (py_str
       ''Cloudflare credentials not configured. Please check your .env file.''))])
   \<and> generate_voice_chunked
     \<lparr>CLOUDFLARE_ACCOUNT_ID = Some (py_str ''acct''), CLOUDFLARE_API_TOKEN = None,
      GEMINI_API_KEY = None\<rparr> (JObj [(py_str ''text'', JStr [])]) (\<lambda>p. Raises_timeout)
   = Json_response 500 (JObj [(py_str ''error'', JStr (py_str
       ''Cloudflare credentials not configured.''))])"
  by (rule credentials_checked_first) (simp add: env_unset_def)

section \<open>Blocklisted symbols\<close>

text \<open>
  Claim C4: for every input, the output of \<open>clean_text_for_tts\<close> contains none of the
  nineteen blocklisted symbols.
\<close>

theorem clean_output_has_no_blocklisted_symbol:
  "set (clean_text_for_tts x) \<inter> set blocklist = {}"
  by (rule clean_no_blocklisted)

theorem clean_output_has_no_blocklisted_symbol_witness:
  "clean_text_for_tts (py_str ''a*b_c #1 <x> 50% [y]'') = py_str ''abc 1 x 50 y''
   \<and> set (py_str ''abc 1 x 50 y'') \<inter> set blocklist = {}"
proof
  show e: "clean_text_for_tts (py_str ''a*b_c #1 <x> 50% [y]'') = py_str ''abc 1 x 50 y''"
    by (simp add: py_eval)
  show "set (py_str ''abc 1 x 50 y'') \<inter> set blocklist = {}"
    using clean_output_has_no_blocklisted_symbol[of "py_str ''a*b_c #1 <x> 50% [y]''"]
    unfolding e .
qed

section \<open>The chunker groups whole sentences\<close>

lemma glue_simps [simp]:
  "glue [] = []" "glue (g @ [s]) = glue g @ s @ [SP]" "glue [s] = s @ [SP]"
  by (simp_all add: glue_def)

lemma glue_Nil_iff [simp]: "glue g = [] \<longleftrightarrow> g = []"
  by (cases g) (simp_all add: glue_def)

lemma fits_Nil: "fits []"
  by (simp add: fits_def strip_def)

lemma fits_single: "fits [s]"
proof (cases "400 < length s")
  case True
  then show ?thesis by (simp add: fits_def)
next
  case False
  have "length (strip (s @ [SP])) \<le> length s"
    using length_strip_le[of s] by (simp add: strip_snoc_space is_space_def)
  with False show ?thesis by (simp add: fits_def)
qed

lemma fits_snoc: "length (glue g) + length s < 400 \<Longrightarrow> fits (g @ [s])"
  using length_strip_le[of "glue (g @ [s])"] by (simp add: fits_def)

lemma chunk_loop_groups:
  assumes "chunk_loop (map (\<lambda>h. strip (glue h)) gs) (glue g) ss = (chunks, cur)"
    and "[] \<notin> set gs" and "\<forall>h\<in>set gs. fits h" and "fits g"
  shows "\<exists>gs' g'. chunks = map (\<lambda>h. strip (glue h)) gs' \<and> cur = glue g' \<and>
           concat gs' @ g' = concat gs @ g @ ss \<and> [] \<notin> set gs' \<and>
           (\<forall>h\<in>set gs'. fits h) \<and> fits g'"
  using assms
proof (induction ss arbitrary: gs g)
  case Nil
  then show ?case by auto
next
  case (Cons s ss)
  show ?case
  proof (cases "length (glue g) + length s < 400")
    case True
    then have "chunk_loop (map (\<lambda>h. strip (glue h)) gs) (glue (g @ [s])) ss = (chunks, cur)"
      using Cons.prems(1) by simp
    from Cons.IH[OF this Cons.prems(2,3) fits_snoc[OF True]]
    show ?thesis by simp
  next
    case False
    show ?thesis
    proof (cases "g = []")
      case True
      then have "chunk_loop (map (\<lambda>h. strip (glue h)) gs) (glue [s]) ss = (chunks, cur)"
        using Cons.prems(1) False by simp
      from Cons.IH[OF this Cons.prems(2,3) fits_single] True
      show ?thesis by simp
    next
      case g: False
      then have "chunk_loop (map (\<lambda>h. strip (glue h)) (gs @ [g])) (glue [s]) ss = (chunks, cur)"
        using Cons.prems(1) False by simp
      moreover have "[] \<notin> set (gs @ [g])" using g Cons.prems(2) by auto
      moreover have "\<forall>h\<in>set (gs @ [g]). fits h" using Cons.prems(3,4) by auto
      ultimately show ?thesis using Cons.IH[of "gs @ [g]" "[s]"] fits_single by simp
    qed
  qed
qed

lemma chunk_text_groups:
  "\<exists>gs. concat gs = split_sentences s \<and> [] \<notin> set gs \<and>
        chunk_text s = map (\<lambda>g. strip (glue g)) gs \<and> (\<forall>g\<in>set gs. fits g)"
proof -
  obtain chunks cur where cl: "chunk_loop [] [] (split_sentences s) = (chunks, cur)"
    by (cases "chunk_loop [] [] (split_sentences s)")
  then have "chunk_loop (map (\<lambda>h. strip (glue h)) []) (glue []) (split_sentences s) = (chunks, cur)"
    by simp
  from chunk_loop_groups[OF this, simplified, OF fits_Nil]
  obtain gs' g' where g: "chunks = map (\<lambda>h. strip (glue h)) gs'" "cur = glue g'"
    "concat gs' @ g' = split_sentences s" "[] \<notin> set gs'" "\<forall>h\<in>set gs'. fits h" "fits g'"
    by auto
  show ?thesis
  proof (cases "g' = []")
    case True
    with g cl show ?thesis by (intro exI[of _ gs']) (simp add: chunk_text_def)
  next
    case False
    with g cl show ?thesis by (intro exI[of _ "gs' @ [g']"]) (simp add: chunk_text_def)
  qed
qed

text \<open>
  Claim C2: every chunk has at most 400 characters, unless it is a single sentence that
  alone has more than 400, which is emitted whole (trimmed, as every chunk is); and no
  sentence is cut: the chunks are the trimmed buffers of consecutive groups of whole
  sentences, the groups together being the list of all sentences.
\<close>

theorem chunks_within_budget:
  "(\<forall>c\<in>set (chunk_text s).
      length c \<le> 400 \<or> (\<exists>sentence\<in>set (split_sentences s). 400 < length sentence \<and> c = strip sentence))
   \<and> (\<exists>gs. concat gs = split_sentences s \<and> [] \<notin> set gs \<and>
             chunk_text s = map (\<lambda>g. strip (glue g)) gs)"
proof
  obtain gs where gs: "concat gs = split_sentences s" "[] \<notin> set gs"
    "chunk_text s = map (\<lambda>g. strip (glue g)) gs" "\<forall>g\<in>set gs. fits g"
    using chunk_text_groups by blast
  show "\<exists>gs. concat gs = split_sentences s \<and> [] \<notin> set gs \<and>
             chunk_text s = map (\<lambda>g. strip (glue g)) gs"
    using gs by blast
  show "\<forall>c\<in>set (chunk_text s).
      length c \<le> 400 \<or> (\<exists>sentence\<in>set (split_sentences s). 400 < length sentence \<and> c = strip sentence)"
  proof
    fix c assume "c \<in> set (chunk_text s)"
    then obtain g where g: "g \<in> set gs" "c = strip (glue g)" using gs(3) by auto
    with gs(4) have "fits g" by blast
    then show "length c \<le> 400 \<or>
        (\<exists>sentence\<in>set (split_sentences s). 400 < length sentence \<and> c = strip sentence)"
    proof (unfold fits_def, elim disjE exE conjE)
      assume "length (strip (glue g)) \<le> 400"
      then show ?thesis using g by simp
    next
      fix x assume x: "g = [x]" "400 < length x"
      have "x \<in> set g" using x(1) by simp
      then have "x \<in> set (concat gs)" using g(1) by auto
      moreover have "c = strip x" using g(2) x(1) by (simp add: strip_snoc_space is_space_def)
      ultimately show ?thesis using x(2) gs(1) by auto
    qed
  qed
qed

theorem chunks_within_budget_witness:
  "py_str ''Hi there. How are you? Fine!'' \<in> set (chunk_text (py_str ''Hi there. How are you?  Fine!''))
   \<and> (length (py_str ''Hi there. How are you? Fine!'') \<le> 400 \<or>
      (\<exists>sentence\<in>set (split_sentences (py_str ''Hi there. How are you?  Fine!'')).
         400 < length sentence \<and> py_str ''Hi there. How are you? Fine!'' = strip sentence))
   \<and> replicate 401 97 @ py_str ''.'' \<in> set (chunk_text (replicate 401 97 @ py_str ''. Ok''))
   \<and> 400 < length (replicate 401 97 @ py_str ''.'')
   \<and> (\<exists>sentence\<in>set (split_sentences (replicate 401 97 @ py_str ''. Ok'')).
         400 < length sentence \<and> replicate 401 97 @ py_str ''.'' = strip sentence)"
proof -
  have a: "chunk_text (py_str ''Hi there. How are you?  Fine!'') =
             [py_str ''Hi there. How are you? Fine!'']"
    by (simp add: py_eval)
  have b: "chunk_text (replicate 401 97 @ py_str ''. Ok'') =
             [replicate 401 97 @ py_str ''.'', py_str ''Ok'']"
    by (simp add: py_eval re_split_go_nonspace)
  have a': "py_str ''Hi there. How are you? Fine!''
              \<in> set (chunk_text (py_str ''Hi there. How are you?  Fine!''))"
    unfolding a by simp
  have b': "replicate 401 97 @ py_str ''.'' \<in> set (chunk_text (replicate 401 97 @ py_str ''. Ok''))"
    unfolding b by simp
  have big: "400 < length (replicate 401 97 @ py_str ''.'')"
    by (simp add: py_str_def)
  from chunks_within_budget[of "py_str ''Hi there. How are you?  Fine!''"] a'
  have 1: "length (py_str ''Hi there. How are you? Fine!'') \<le> 400 \<or>
      (\<exists>sentence\<in>set (split_sentences (py_str ''Hi there. How are you?  Fine!'')).
         400 < length sentence \<and> py_str ''Hi there. How are you? Fine!'' = strip sentence)"
    by blast
  from chunks_within_budget[of "replicate 401 97 @ py_str ''. Ok''"] b'
  have "length (replicate 401 97 @ py_str ''.'') \<le> 400 \<or>
      (\<exists>sentence\<in>set (split_sentences (replicate 401 97 @ py_str ''. Ok'')).
         400 < length sentence \<and> replicate 401 97 @ py_str ''.'' = strip sentence)"
    by blast
  with big have 2: "\<exists>sentence\<in>set (split_sentences (replicate 401 97 @ py_str ''. Ok'')).
         400 < length sentence \<and> replicate 401 97 @ py_str ''.'' = strip sentence"
    by linarith
  show ?thesis using a' 1 b' big 2 by blast
qed

section \<open>The chunks keep the words of the text\<close>

lemma words_acc_space:
  "is_space c \<Longrightarrow> words_acc w (a @ c # b) = words_acc w a @ words_acc [] b"
  by (induction a arbitrary: w) simp_all

lemma words_acc_trailing:
  "\<forall>x\<in>set t. is_space x \<Longrightarrow> words_acc w (a @ t) = words_acc w a"
proof (induction t arbitrary: a w)
  case Nil
  then show ?case by simp
next
  case (Cons c t)
  then have "words_acc w (a @ c # t) = words_acc w a @ words_acc [] t"
    by (simp add: words_acc_space)
  moreover have "words_acc [] ([] @ t) = words_acc [] []" using Cons.prems by (intro Cons.IH) simp
  then have "words_acc [] t = []" by simp
  ultimately show ?case by simp
qed

lemma split_words_dropWhile: "split_words (dropWhile is_space s) = split_words s"
  by (induction s) (simp_all add: split_words_def)

lemma split_words_rstrip:
  "split_words (rev (dropWhile is_space (rev s))) = split_words s"
proof -
  have "s = rev (dropWhile is_space (rev s)) @ rev (takeWhile is_space (rev s))"
    by (metis rev_append rev_rev_ident takeWhile_dropWhile_id)
  moreover have "\<forall>x\<in>set (rev (takeWhile is_space (rev s))). is_space x"
    by (auto dest: set_takeWhileD)
  ultimately show ?thesis
    unfolding split_words_def using words_acc_trailing by metis
qed

lemma split_words_strip: "split_words (strip s) = split_words s"
  by (simp add: strip_def split_words_rstrip split_words_dropWhile)

lemma split_words_space:
  "is_space c \<Longrightarrow> split_words (a @ c # b) = split_words a @ split_words b"
  by (simp add: split_words_def words_acc_space)

lemma split_words_glue: "split_words (glue g) = concat (map split_words g)"
proof (induction g)
  case Nil
  then show ?case by (simp add: split_words_def)
next
  case (Cons s g)
  have "glue (s # g) = s @ SP # glue g" by (simp add: glue_def)
  then show ?case using Cons by (simp add: split_words_space is_space_def)
qed

lemma split_words_join: "split_words (join [SP] xs) = concat (map split_words xs)"
proof (induction "[SP]" xs rule: join.induct)
  case 1
  then show ?case by (simp add: split_words_def)
next
  case (2 x)
  then show ?case by simp
next
  case (3 x y ys)
  then show ?case by (simp add: split_words_space is_space_def)
qed

lemma split_words_re_split_go:
  "concat (map split_words (re_split_go prev piece xs)) = split_words (piece @ xs)"
proof (induction prev piece xs rule: re_split_go.induct)
  case (1 prev piece)
  then show ?case by simp
next
  case (2 prev piece c cs)
  show ?case
  proof (cases "is_space c \<and> boundary_behind prev")
    case True
    then have "concat (map split_words (re_split_go prev piece (c # cs))) =
        split_words piece @ split_words (dropWhile is_space cs)"
      using 2(1) by simp
    also have "\<dots> = split_words piece @ split_words cs" by (simp add: split_words_dropWhile)
    also have "\<dots> = split_words (piece @ c # cs)" using True by (simp add: split_words_space)
    finally show ?thesis .
  next
    case False
    then show ?thesis using 2(2) by auto
  qed
qed

lemma split_words_sentences:
  "concat (map split_words (split_sentences s)) = split_words s"
  using split_words_re_split_go[of "[]" "[]" "s"] by (simp add: split_sentences_def)

lemma collapse_ws_simps:
  "collapse_ws [] = []"
  "is_space c \<Longrightarrow> collapse_ws (c # cs) = SP # collapse_ws (dropWhile is_space cs)"
  "\<not> is_space c \<Longrightarrow> collapse_ws (c # cs) = c # collapse_ws cs"
  by (simp_all add: collapse_ws_def re_sub_m_run_Cons dropWhile_eq_drop)

lemma join_Cons_if: "join sep (w # ws) = (if ws = [] then w else w @ sep @ join sep ws)"
  by (cases ws) simp_all

lemma words_acc_nonempty: "w \<noteq> [] \<Longrightarrow> words_acc w s \<noteq> [] \<and> hd (words_acc w s) \<noteq> []"
  by (induction s arbitrary: w) simp_all

lemma join_nonempty: "ws \<noteq> [] \<Longrightarrow> hd ws \<noteq> [] \<Longrightarrow> join sep ws \<noteq> []"
  by (cases ws) (simp_all add: join_Cons_if)

lemma rstrip_collapse:
  "w \<noteq> [] \<Longrightarrow> \<forall>x\<in>set w. \<not> is_space x \<Longrightarrow>
     rstrip (w @ collapse_ws s) = join [SP] (words_acc w s)"
proof (induction "length s" arbitrary: s w rule: less_induct)
  case less
  show ?case
  proof (cases s)
    case Nil
    then show ?thesis using less.prems by (simp add: collapse_ws_simps rstrip_word)
  next
    case (Cons c cs)
    show ?thesis
    proof (cases "is_space c")
      case False
      have pre: "w @ [c] \<noteq> []" "\<forall>x\<in>set (w @ [c]). \<not> is_space x"
        using less.prems False by auto
      have len: "length cs < length s" using Cons by simp
      have "rstrip ((w @ [c]) @ collapse_ws cs) = join [SP] (words_acc (w @ [c]) cs)"
        by (rule less.hyps[OF len pre])
      then show ?thesis using False Cons by (simp add: collapse_ws_simps)
    next
      case True
      let ?r = "dropWhile is_space cs"
      have "words_acc [] cs = words_acc [] ?r"
        using split_words_dropWhile[of cs] by (simp add: split_words_def)
      then have wa: "words_acc w s = w # words_acc [] ?r"
        using True Cons less.prems(1) by simp
      have cw: "collapse_ws s = SP # collapse_ws ?r"
        using True Cons by (simp add: collapse_ws_simps)
      show ?thesis
      proof (cases ?r)
        case Nil
        have "rstrip (w @ [SP]) = w"
          using less.prems by (simp add: rstrip_snoc_space is_space_def rstrip_word)
        then show ?thesis using wa cw Nil by (simp add: collapse_ws_simps)
      next
        case (Cons d r')
        have d: "\<not> is_space d" using Cons by (rule dropWhile_head)
        have "length ?r \<le> length cs" by (rule length_dropWhile_le)
        then have len: "length r' < length s" using Cons \<open>s = c # cs\<close> by simp
        have ih: "rstrip ([d] @ collapse_ws r') = join [SP] (words_acc [d] r')"
          using d by (intro less.hyps[OF len]) simp_all
        have ne: "words_acc [d] r' \<noteq> [] \<and> hd (words_acc [d] r') \<noteq> []"
          by (rule words_acc_nonempty) simp
        then have jne: "join [SP] (words_acc [d] r') \<noteq> []" by (simp add: join_nonempty)
        have wd: "words_acc [] ?r = words_acc [d] r'" using Cons d by simp
        have "rstrip (w @ collapse_ws s) = rstrip ((w @ [SP]) @ ([d] @ collapse_ws r'))"
          using cw Cons d by (simp add: collapse_ws_simps)
        also have "\<dots> = (w @ [SP]) @ rstrip ([d] @ collapse_ws r')"
          using ih jne by (intro rstrip_append) simp
        also have "\<dots> = w @ [SP] @ join [SP] (words_acc [d] r')" using ih by simp
        also have "\<dots> = join [SP] (w # words_acc [d] r')" using ne by (simp add: join_Cons_if)
        finally show ?thesis using wa wd by simp
      qed
    qed
  qed
qed

lemma strip_collapse_start:
  assumes "r = [] \<or> \<not> is_space (hd r)"
  shows "strip (collapse_ws r) = join [SP] (split_words r)"
proof (cases r)
  case Nil
  then show ?thesis by (simp add: collapse_ws_simps strip_def split_words_def)
next
  case (Cons d r')
  then have d: "\<not> is_space d" using assms by simp
  have "strip (collapse_ws r) = rstrip ([d] @ collapse_ws r')"
    using d Cons by (simp add: strip_def rstrip_def collapse_ws_simps)
  also have "\<dots> = join [SP] (words_acc [d] r')" using d by (intro rstrip_collapse) simp_all
  finally show ?thesis using d Cons by (simp add: split_words_def)
qed

lemma strip_collapse_words: "strip (collapse_ws s) = join [SP] (split_words s)"
proof (cases s)
  case Nil
  then show ?thesis by (simp add: strip_collapse_start)
next
  case (Cons c cs)
  show ?thesis
  proof (cases "is_space c")
    case False
    then show ?thesis using Cons by (simp add: strip_collapse_start)
  next
    case True
    let ?r = "dropWhile is_space cs"
    have r: "?r = [] \<or> \<not> is_space (hd ?r)" by (metis hd_dropWhile)
    have "strip (collapse_ws s) = strip (collapse_ws ?r)"
      using True Cons by (simp add: collapse_ws_simps strip_def is_space_def)
    moreover have "split_words cs = split_words ?r" by (simp add: split_words_dropWhile)
    then have "split_words s = split_words ?r"
      using True Cons by (simp add: split_words_def)
    ultimately show ?thesis using strip_collapse_start[OF r] by simp
  qed
qed


lemma ws_normal_words: "ws_normal s = join [SP] (split_words s)"
  by (simp add: ws_normal_def strip_collapse_words)

text \<open>
  Claim C3: the chunks joined by single spaces, trimmed, are whitespace-equivalent to the
  trimmed input; and the chunks follow the order of the sentences: they are made from
  consecutive groups of the sentence list.
\<close>

theorem chunks_whitespace_equivalent:
  "ws_normal (strip (join [SP] (chunk_text s))) = ws_normal (strip s)
   \<and> (\<exists>gs. concat gs = split_sentences s \<and> chunk_text s = map (\<lambda>g. strip (glue g)) gs)"
proof
  obtain gs where gs: "concat gs = split_sentences s"
    "chunk_text s = map (\<lambda>g. strip (glue g)) gs"
    using chunk_text_groups by blast
  then show "\<exists>gs. concat gs = split_sentences s \<and> chunk_text s = map (\<lambda>g. strip (glue g)) gs"
    by blast
  have "split_words (join [SP] (chunk_text s)) =
          concat (map (\<lambda>g. concat (map split_words g)) gs)"
    by (simp add: split_words_join gs(2) comp_def split_words_strip split_words_glue)
  also have "\<dots> = concat (map split_words (concat gs))"
    by (induction gs) simp_all
  also have "\<dots> = split_words s" by (simp add: gs(1) split_words_sentences)
  finally show "ws_normal (strip (join [SP] (chunk_text s))) = ws_normal (strip s)"
    by (simp add: ws_normal_words split_words_strip)
qed

theorem chunks_whitespace_equivalent_witness:
  "ws_normal (strip (join [SP] (chunk_text (py_str '' Hi there.  How are  you? Fine! ''))))
     = py_str ''Hi there. How are you? Fine!''"
proof -
  have "ws_normal (strip (py_str '' Hi there.  How are  you? Fine! ''))
          = py_str ''Hi there. How are you? Fine!''"
    by (simp add: ws_normal_def collapse_ws_def py_eval)
  then show ?thesis
    using chunks_whitespace_equivalent[of "py_str '' Hi there.  How are  you? Fine! ''"]
    by simp
qed

section \<open>The chunked endpoint\<close>

lemma keys_distinct:
  "py_str ''text'' \<noteq> py_str ''language''" "py_str ''language'' \<noteq> py_str ''text''"
  "py_str ''message'' \<noteq> py_str ''history''" "py_str ''history'' \<noteq> py_str ''message''"
  by (simp_all add: py_str_def)

text \<open>
  Claim C7 says that the chunked endpoint decides by the chunks of the normalized text.
  The endpoint never normalizes: it chunks the text as received. For the text of 398
  characters \<open>#\<close> followed by \<open>". b"\<close>, the normalized text \<open>". b"\<close> gives one chunk, yet
  the endpoint finds two chunks and answers with the chunk list, where
  \<open>/api/generate-voice\<close> answers 504 for an upstream that times out.
\<close>

theorem chunked_endpoint_does_not_normalize:
  "length (chunk_text (clean_text_for_tts (replicate 398 35 @ py_str ''. b''))) \<le> 1
   \<and> generate_voice_chunked
       \<lparr>CLOUDFLARE_ACCOUNT_ID = Some (py_str ''acct''),
        CLOUDFLARE_API_TOKEN = Some (py_str ''token''), GEMINI_API_KEY = None\<rparr>
       (JObj [(py_str ''text'', JStr (replicate 398 35 @ py_str ''. b''))])
       (\<lambda>p. Raises_timeout)
     \<noteq> generate_voice
       \<lparr>CLOUDFLARE_ACCOUNT_ID = Some (py_str ''acct''),
        CLOUDFLARE_API_TOKEN = Some (py_str ''token''), GEMINI_API_KEY = None\<rparr>
       (JObj [(py_str ''text'', JStr (replicate 398 35 @ py_str ''. b''))])
       (\<lambda>p. Raises_timeout)"
proof -
  define t0 where "t0 = replicate 398 35 @ py_str ''. b''"
  have ne: "t0 \<noteq> []" by (simp add: t0_def)
  have l: "length (chunk_text t0) = 2"
    unfolding t0_def by (simp add: py_eval re_split_go_nonspace)
  have c: "clean_text_for_tts t0 = py_str ''. b''"
    unfolding t0_def
    by (simp add: py_eval re_sub_replicate_quiet punct_capital_replicate re_sub_blocklist_filter)
  have k: "chunk_text (py_str ''. b'') = [py_str ''. b'']"
    by (simp add: py_eval)
  have "length (chunk_text (clean_text_for_tts t0)) \<le> 1"
    by (simp add: c k)
  moreover have "generate_voice_chunked
       \<lparr>CLOUDFLARE_ACCOUNT_ID = Some (py_str ''acct''),
        CLOUDFLARE_API_TOKEN = Some (py_str ''token''), GEMINI_API_KEY = None\<rparr>
       (JObj [(py_str ''text'', JStr t0)]) (\<lambda>p. Raises_timeout)
     \<noteq> generate_voice
       \<lparr>CLOUDFLARE_ACCOUNT_ID = Some (py_str ''acct''),
        CLOUDFLARE_API_TOKEN = Some (py_str ''token''), GEMINI_API_KEY = None\<rparr>
       (JObj [(py_str ''text'', JStr t0)]) (\<lambda>p. Raises_timeout)"
    using ne l by (simp add: http_eval keys_distinct Let_def) (simp add: py_str_def)
  ultimately show ?thesis unfolding t0_def by blast
qed

text \<open>
  Claim C7, amended: for a request to \<open>/api/generate-voice-chunked\<close> with credentials
  configured and a non-empty string as \<open>text\<close>: if chunking the text as received (it is
  not normalized) yields at most one chunk, the endpoint behaves exactly as
  \<open>/api/generate-voice\<close> on the same request; otherwise it returns status 200 with the
  JSON body \<open>{chunks, total}\<close>, the chunks of the text and their number.
\<close>

theorem chunked_endpoint_routes_by_raw_chunks:
  assumes "\<not> env_unset (CLOUDFLARE_ACCOUNT_ID cfg)"
    and "\<not> env_unset (CLOUDFLARE_API_TOKEN cfg)"
    and "map_of kvs (py_str ''text'') = Some (JStr s)"
    and "s \<noteq> []"
  shows "generate_voice_chunked cfg (JObj kvs) cloudflare =
           (if length (chunk_text s) \<le> 1 then generate_voice cfg (JObj kvs) cloudflare
            else Json_response 200
                   (JObj [(py_str ''chunks'', JArr (map JStr (chunk_text s))),
                          (py_str ''total'', JNum (of_nat (length (chunk_text s))))]))"
  using assms by (simp add: generate_voice_chunked_def Let_def)

theorem chunked_endpoint_routes_by_raw_chunks_witness:
  "generate_voice_chunked
     \<lparr>CLOUDFLARE_ACCOUNT_ID = Some (py_str ''acct''),
      CLOUDFLARE_API_TOKEN = Some (py_str ''token''), GEMINI_API_KEY = None\<rparr>
     (JObj [(py_str ''text'', JStr (py_str ''Hi. Yo''))]) (\<lambda>p. Replies_audio [82, 73, 70, 70])
   = Wav_file [82, 73, 70, 70]
   \<and> generate_voice_chunked
     \<lparr>CLOUDFLARE_ACCOUNT_ID = Some (py_str ''acct''),
      CLOUDFLARE_API_TOKEN = Some (py_str ''token''), GEMINI_API_KEY = None\<rparr>
     (JObj [(py_str ''text'', JStr (replicate 401 97 @ py_str ''. Ok''))])
     (\<lambda>p. Replies_audio [82, 73, 70, 70])
   = Json_response 200
       (JObj [(py_str ''chunks'', JArr [JStr (replicate 401 97 @ py_str ''.''), JStr (py_str ''Ok'')]),
              (py_str ''total'', JNum 2)])"
proof
  let ?cfg = "\<lparr>CLOUDFLARE_ACCOUNT_ID = Some (py_str ''acct''),
      CLOUDFLARE_API_TOKEN = Some (py_str ''token''), GEMINI_API_KEY = None\<rparr>"
  have cfg: "\<not> env_unset (CLOUDFLARE_ACCOUNT_ID ?cfg)" "\<not> env_unset (CLOUDFLARE_API_TOKEN ?cfg)"
    by (simp_all add: env_unset_def py_str_def)
  have a: "chunk_text (py_str ''Hi. Yo'') = [py_str ''Hi. Yo'']"
    by (simp add: py_eval)
  have b: "chunk_text (replicate 401 97 @ py_str ''. Ok'') =
             [replicate 401 97 @ py_str ''.'', py_str ''Ok'']"
    by (simp add: py_eval re_split_go_nonspace)
  have gv: "generate_voice ?cfg (JObj [(py_str ''text'', JStr (py_str ''Hi. Yo''))])
              (\<lambda>p. Replies_audio [82, 73, 70, 70]) = Wav_file [82, 73, 70, 70]"
    by (simp add: http_eval keys_distinct) (simp add: py_str_def)
  show "generate_voice_chunked ?cfg (JObj [(py_str ''text'', JStr (py_str ''Hi. Yo''))])
          (\<lambda>p. Replies_audio [82, 73, 70, 70]) = Wav_file [82, 73, 70, 70]"
    using chunked_endpoint_routes_by_raw_chunks[OF cfg, of "[(py_str ''text'', JStr (py_str ''Hi. Yo''))]"
        "py_str ''Hi. Yo''" "\<lambda>p. Replies_audio [82, 73, 70, 70]"]
    by (simp add: a gv) (simp add: py_str_def)
  show "generate_voice_chunked ?cfg
          (JObj [(py_str ''text'', JStr (replicate 401 97 @ py_str ''. Ok''))])
          (\<lambda>p. Replies_audio [82, 73, 70, 70])
        = Json_response 200
            (JObj [(py_str ''chunks'', JArr [JStr (replicate 401 97 @ py_str ''.''), JStr (py_str ''Ok'')]),
                   (py_str ''total'', JNum 2)])"
    using chunked_endpoint_routes_by_raw_chunks[OF cfg,
        of "[(py_str ''text'', JStr (replicate 401 97 @ py_str ''. Ok''))]"
        "replicate 401 97 @ py_str ''. Ok''" "\<lambda>p. Replies_audio [82, 73, 70, 70]"]
    by (simp add: b)
qed

section \<open>An empty remainder becomes an empty chunk\<close>



section \<open>The chat endpoint\<close>

text \<open>
  Claim C10 says that the \<open>response\<close> of a successful \<open>/api/chat\<close> call always has its
  punctuation runs normalized. For the model output \<open>"!#!"\<close> the response is \<open>"!!"\<close>:
  line 222 sees no run, line 226 removes the \<open>#\<close>, and the rule of line 222 would still
  rewrite the response.
\<close>

theorem chat_response_keeps_a_punctuation_run:
  "chat_with_gemini
     \<lparr>CLOUDFLARE_ACCOUNT_ID = None, CLOUDFLARE_API_TOKEN = None,
      GEMINI_API_KEY = Some (py_str ''key'')\<rparr>
     (JObj [(py_str ''message'', JStr (py_str ''hello''))]) (Inr (py_str ''!#!''))
   = Json_response 200
       (JObj [(py_str ''response'', JStr (py_str ''!!'')), (py_str ''success'', JBool True)])
   \<and> re_sub (m_run (\<lambda>c. c = BANG) 2 None [BANG]) None (py_str ''!!'') = py_str ''!''"
proof
  have c: "clean_text_for_tts (py_str ''!#!'') = py_str ''!!''"
    by (simp add: py_eval)
  show "chat_with_gemini
     \<lparr>CLOUDFLARE_ACCOUNT_ID = None, CLOUDFLARE_API_TOKEN = None,
      GEMINI_API_KEY = Some (py_str ''key'')\<rparr>
     (JObj [(py_str ''message'', JStr (py_str ''hello''))]) (Inr (py_str ''!#!''))
   = Json_response 200
       (JObj [(py_str ''response'', JStr (py_str ''!!'')), (py_str ''success'', JBool True)])"
    by (simp add: http_eval keys_distinct c) (simp add: py_str_def)
  show "re_sub (m_run (\<lambda>c. c = BANG) 2 None [BANG]) None (py_str ''!!'') = py_str ''!''"
    by (simp add: py_eval)
qed

text \<open>
  Claim C10, amended: on every successful call (key configured, a true \<open>message\<close>, no
  exception in the conversation with the model) \<open>/api/chat\<close> returns status 200 with
  \<open>response\<close> being \<open>clean_text_for_tts\<close> applied to the raw model output, and \<open>success\<close>
  true. That response is trimmed and contains no blocklisted symbol (so no \<open>*\<close> of an
  emphasis marker); it may still contain a punctuation run or a backtick.
\<close>

theorem chat_returns_cleaned_text:
  assumes "\<not> env_unset (GEMINI_API_KEY cfg)"
    and "map_of kvs (py_str ''message'') = Some message"
    and "truthy message"
  shows "chat_with_gemini cfg (JObj kvs) (Inr raw) =
           Json_response 200
             (JObj [(py_str ''response'', JStr (clean_text_for_tts raw)),
                    (py_str ''success'', JBool True)])
       \<and> strip (clean_text_for_tts raw) = clean_text_for_tts raw
       \<and> set (clean_text_for_tts raw) \<inter> set blocklist = {}"
  using assms by (simp add: chat_with_gemini_def clean_trimmed clean_no_blocklisted)

theorem chat_returns_cleaned_text_witness:
  "chat_with_gemini
     \<lparr>CLOUDFLARE_ACCOUNT_ID = None, CLOUDFLARE_API_TOKEN = None,
      GEMINI_API_KEY = Some (py_str ''key'')\<rparr>
     (JObj [(py_str ''message'', JStr (py_str ''hello''))])
     (Inr (py_str '' **Well** done!!  Next word... *ephemeral* ''))
   = Json_response 200
       (JObj [(py_str ''response'', JStr (py_str ''Well done! Next word... ephemeral'')),
              (py_str ''success'', JBool True)])"
proof -
  let ?cfg = "\<lparr>CLOUDFLARE_ACCOUNT_ID = None, CLOUDFLARE_API_TOKEN = None,
      GEMINI_API_KEY = Some (py_str ''key'')\<rparr>"
  have c: "clean_text_for_tts (py_str '' **Well** done!!  Next word... *ephemeral* '')
             = py_str ''Well done! Next word... ephemeral''"
    by (simp add: py_eval)
  have k: "\<not> env_unset (GEMINI_API_KEY ?cfg)" by (simp add: env_unset_def py_str_def)
  have m: "map_of [(py_str ''message'', JStr (py_str ''hello''))] (py_str ''message'')
             = Some (JStr (py_str ''hello''))" by simp
  have t: "truthy (JStr (py_str ''hello''))" by (simp add: py_str_def)
  show ?thesis using chat_returns_cleaned_text[OF k m t, of "py_str '' **Well** done!!  Next word... *ephemeral* ''"]
    unfolding c by simp
qed

section \<open>Idempotence of the normalizer\<close>

lemma quiet_wrapped: "d \<noteq> [] \<Longrightarrow> hd d \<notin> set xs \<Longrightarrow> quiet (m_wrapped d) p xs"
proof (induction xs arbitrary: p)
  case Nil
  then show ?case by simp
next
  case (Cons c cs)
  obtain x d' where d: "d = x # d'" using Cons.prems(1) by (cases d) auto
  have "take (length d) (c # cs) \<noteq> d" using Cons.prems(2) d by auto
  then show ?case using Cons by (simp add: m_wrapped_def)
qed

lemma quiet_off_line_start:
  assumes "\<forall>p ys. \<not> at_line_start p \<longrightarrow> m p ys = None"
  shows "NL \<notin> set xs \<Longrightarrow> \<not> at_line_start p \<Longrightarrow> quiet m p xs"
proof (induction xs arbitrary: p)
  case Nil
  then show ?case by simp
next
  case (Cons c cs)
  have "\<not> at_line_start (Some c)" using Cons.prems(1) by (simp add: at_line_start_def)
  then show ?case using Cons assms by simp
qed

lemma quiet_at_start:
  assumes "\<forall>p ys. \<not> at_line_start p \<longrightarrow> m p ys = None"
    and "NL \<notin> set xs" and "m None xs = None"
  shows "quiet m None xs"
proof (cases xs)
  case Nil
  then show ?thesis by simp
next
  case (Cons c cs)
  have "\<not> at_line_start (Some c)" using assms(2) Cons by (simp add: at_line_start_def)
  then have "quiet m (Some c) cs" using assms(1,2) Cons by (intro quiet_off_line_start) simp_all
  then show ?thesis using assms(3) Cons by simp
qed

lemma m_bullet_None:
  "s = [] \<or> \<not> is_space (hd s) \<Longrightarrow> \<not> starts_with_bullet s \<Longrightarrow> m_bullet None s = None"
  by (cases s; cases "tl s") (auto simp: m_bullet_def starts_with_bullet_def split: list.splits)

lemma m_ordinal_None:
  "s = [] \<or> \<not> is_space (hd s) \<Longrightarrow> \<not> starts_with_ordinal s \<Longrightarrow> m_ordinal None s = None"
proof -
  assume a: "s = [] \<or> \<not> is_space (hd s)" and b: "\<not> starts_with_ordinal s"
  have d: "dropWhile is_space s = s" using a by (cases s) auto
  show ?thesis
  proof (cases "dropWhile is_decimal s")
    case Nil
    show ?thesis unfolding m_ordinal_def d Let_def Nil by simp
  next
    case (Cons p r')
    show ?thesis
    proof (cases r')
      case Nil
      then show ?thesis using Cons by (simp add: m_ordinal_def d Let_def)
    next
      case (Cons w r'')
      then show ?thesis using \<open>dropWhile is_decimal s = p # r'\<close> b
        by (auto simp: m_ordinal_def d Let_def starts_with_ordinal_def)
    qed
  qed
qed

lemma quiet_m_run: "no_run cls n xs \<Longrightarrow> n \<le> lo \<Longrightarrow> quiet (m_run cls lo hi rep) p xs"
  by (induction xs arbitrary: p) (auto simp: m_run_def Let_def)

lemma no_run_drop: "no_run cls n xs \<Longrightarrow> no_run cls n (drop k xs)"
proof (induction xs arbitrary: k)
  case Nil
  then show ?case by simp
next
  case (Cons c cs)
  then show ?case by (cases k) simp_all
qed

lemma takeWhile_eq_replicate: "takeWhile (\<lambda>c. c = x) xs = replicate (length (takeWhile (\<lambda>c. c = x) xs)) x"
  by (induction xs) simp_all

lemma re_sub_dots_fixed:
  "no_run (\<lambda>c. c = DOT) 4 xs \<Longrightarrow>
     re_sub (m_run (\<lambda>c. c = DOT) 3 (Some 8) [DOT, DOT, DOT]) p xs = xs"
proof (induction "length xs" arbitrary: xs p rule: less_induct)
  case less
  show ?case
  proof (cases xs)
    case Nil
    then show ?thesis by simp
  next
    case (Cons c cs)
    let ?n = "length (takeWhile (\<lambda>c. c = DOT) (c # cs))"
    have n4: "?n < 4" and tl: "no_run (\<lambda>c. c = DOT) 4 cs" using less.prems Cons by simp_all
    show ?thesis
    proof (cases "3 \<le> ?n")
      case False
      have "re_sub (m_run (\<lambda>c. c = DOT) 3 (Some 8) [DOT, DOT, DOT]) None cs = cs"
        using tl Cons by (intro less.hyps) simp_all
      then show ?thesis using False Cons by (simp add: re_sub_m_run_Cons Let_def del: takeWhile.simps)
    next
      case True
      then have n3: "?n = 3" using n4 by simp
      have "takeWhile (\<lambda>c. c = DOT) (c # cs) = replicate ?n DOT"
        by (rule takeWhile_eq_replicate)
      then have tw: "takeWhile (\<lambda>c. c = DOT) (c # cs) = [DOT, DOT, DOT]"
        unfolding n3 by (simp add: numeral_3_eq_3)
      have "takeWhile (\<lambda>c. c = DOT) (c # cs) = take ?n (c # cs)"
        by (rule takeWhile_eq_take)
      then have e: "takeWhile (\<lambda>c. c = DOT) (c # cs) = take 3 (c # cs)"
        unfolding n3 .
      have tk: "take 3 (c # cs) = [DOT, DOT, DOT]"
        by (simp only: e[symmetric] tw)
      have "length (drop 3 (c # cs)) < length xs" using Cons by simp
      moreover have "no_run (\<lambda>c. c = DOT) 4 (drop 3 (c # cs))"
        using less.prems Cons by (intro no_run_drop) simp
      ultimately have ih: "re_sub (m_run (\<lambda>c. c = DOT) 3 (Some 8) [DOT, DOT, DOT]) None (drop 3 (c # cs))
          = drop 3 (c # cs)"
        by (intro less.hyps)
      have "re_sub (m_run (\<lambda>c. c = DOT) 3 (Some 8) [DOT, DOT, DOT]) p (c # cs)
          = [DOT, DOT, DOT] @ re_sub (m_run (\<lambda>c. c = DOT) 3 (Some 8) [DOT, DOT, DOT]) None (drop 3 (c # cs))"
        using n3 by (subst re_sub_m_run_Cons) (simp add: Let_def del: takeWhile.simps drop_Suc_Cons)
      also have "\<dots> = take 3 (c # cs) @ drop 3 (c # cs)" unfolding ih tk ..
      finally show ?thesis using Cons by (simp only: append_take_drop_id)
    qed
  qed
qed

lemma space_class: "(\<lambda>c. \<not> (\<not> is_space c \<or> c = DOT)) = is_space"
  by (auto simp: fun_eq_iff is_space_def)

lemma re_sub_spaces_fixed:
  "list_all (\<lambda>c. is_space c \<longrightarrow> c = SP) xs \<Longrightarrow> no_run is_space 2 xs \<Longrightarrow>
     re_sub (m_run is_space 1 None [SP]) p xs = xs"
proof (induction xs arbitrary: p)
  case Nil
  then show ?case by simp
next
  case (Cons c cs)
  have ih: "re_sub (m_run is_space 1 None [SP]) None cs = cs" using Cons by simp
  show ?case
  proof (cases "is_space c")
    case False
    then show ?thesis using ih by (simp add: re_sub_m_run_Cons)
  next
    case True
    then have c: "c = SP" using Cons.prems(1) by simp
    have "takeWhile is_space cs = []" using Cons.prems(2) True by simp
    then show ?thesis using ih True c by (simp add: re_sub_m_run_Cons)
  qed
qed

lemma quiet_punct_capital:
  "no_pair (\<lambda>a b. (a = DOT \<or> a = BANG \<or> a = QMARK) \<and> 65 \<le> b \<and> b \<le> 90) xs \<Longrightarrow>
     quiet m_punct_capital p xs"
proof (induction xs arbitrary: p)
  case Nil
  then show ?case by simp
next
  case (Cons c cs)
  then show ?case by (cases cs) (auto simp: m_punct_capital_def)
qed

lemma quiet_space_dot:
  "no_run is_space 2 xs \<Longrightarrow> no_pair (\<lambda>a b. is_space a \<and> b = DOT) xs \<Longrightarrow>
     quiet m_space_dot p xs"
proof (induction xs arbitrary: p)
  case Nil
  then show ?case by simp
next
  case (Cons c cs)
  have "m_space_dot p (c # cs) = None"
  proof (cases "is_space c")
    case False
    then show ?thesis by (simp add: m_space_dot_def)
  next
    case True
    then have "takeWhile is_space cs = []" using Cons.prems(1) by simp
    then have "dropWhile is_space cs = cs" by (cases cs) (auto split: if_splits)
    then show ?thesis using True Cons.prems(2) by (cases cs) (auto simp: m_space_dot_def)
  qed
  moreover have "no_pair (\<lambda>a b. is_space a \<and> b = DOT) cs"
    using Cons.prems(2) by (cases cs) auto
  ultimately show ?case using Cons by simp
qed

lemma fully_cleaned_fixed:
  assumes "fully_cleaned s"
  shows "clean_text_for_tts s = s"
proof -
  have chars: "list_all (\<lambda>c. c \<noteq> BACKTICK \<and> c \<notin> set blocklist \<and> (is_space c \<longrightarrow> c = SP)) s"
    and ends: "s = [] \<or> (\<not> is_space (hd s) \<and> \<not> is_space (last s))"
    and sp2: "no_run is_space 2 s" and dots: "no_run (\<lambda>c. c = DOT) 4 s"
    and bang: "no_run (\<lambda>c. c = BANG) 2 s" and qm: "no_run (\<lambda>c. c = QMARK) 2 s"
    and spdot: "no_pair (\<lambda>a b. is_space a \<and> b = DOT) s"
    and cap: "no_pair (\<lambda>a b. (a = DOT \<or> a = BANG \<or> a = QMARK) \<and> 65 \<le> b \<and> b \<le> 90) s"
    and nb: "\<not> starts_with_bullet s" and no: "\<not> starts_with_ordinal s"
    using assms by (simp_all add: fully_cleaned_def)
  have blk: "\<forall>c\<in>set s. c \<notin> set blocklist" and tick: "BACKTICK \<notin> set s"
    and sps: "list_all (\<lambda>c. is_space c \<longrightarrow> c = SP) s"
    using chars by (auto simp: list_all_iff)
  have "STAR \<in> set blocklist" by (simp add: blocklist_def)
  then have star: "STAR \<notin> set s" using blk by blast
  have "is_space NL" by (simp add: is_space_def)
  then have nl: "NL \<notin> set s" using sps by (auto simp: list_all_iff)
  have hd: "s = [] \<or> \<not> is_space (hd s)" using ends by blast
  have 1: "re_sub (m_wrapped [STAR, STAR]) None s = s"
    using star by (intro re_sub_quiet quiet_wrapped) simp_all
  have 2: "re_sub (m_wrapped [STAR]) None s = s"
    using star by (intro re_sub_quiet quiet_wrapped) simp_all
  have 3: "re_sub (m_wrapped [BACKTICK]) None s = s"
    using tick by (intro re_sub_quiet quiet_wrapped) simp_all
  have 4: "re_sub m_bullet None s = s"
    using nl m_bullet_None[OF hd nb]
    by (intro re_sub_quiet quiet_at_start) (simp_all add: m_bullet_def)
  have 5: "re_sub m_ordinal None s = s"
    using nl m_ordinal_None[OF hd no]
    by (intro re_sub_quiet quiet_at_start) (simp_all add: m_ordinal_def)
  have 6: "re_sub (m_run (\<lambda>c. \<not> (\<not> is_space c \<or> c = DOT)) 1 None [SP]) None s = s"
    unfolding space_class using sps sp2 by (rule re_sub_spaces_fixed)
  have 7: "re_sub m_punct_capital None s = s"
    using cap by (intro re_sub_quiet quiet_punct_capital)
  have 8: "re_sub (m_run (\<lambda>c. c = DOT) 9 None
             [DOT, DOT, DOT, DOT, DOT, DOT, DOT, DOT, DOT, DOT, DOT, DOT, DOT, DOT]) None s = s"
    using dots by (intro re_sub_quiet quiet_m_run[where n = 4]) simp_all
  have 9: "re_sub (m_run (\<lambda>c. c = DOT) 3 (Some 8) [DOT, DOT, DOT]) None s = s"
    using dots by (rule re_sub_dots_fixed)
  have 10: "re_sub (m_run (\<lambda>c. c = BANG) 2 None [BANG]) None s = s"
    using bang by (intro re_sub_quiet quiet_m_run[where n = 2]) simp_all
  have 11: "re_sub (m_run (\<lambda>c. c = QMARK) 2 None [QMARK]) None s = s"
    using qm by (intro re_sub_quiet quiet_m_run[where n = 2]) simp_all
  have 12: "re_sub m_blocklist None s = s"
    using blk by (simp add: re_sub_blocklist_filter)
  have 13: "re_sub m_space_dot None s = s"
    using sp2 spdot by (intro re_sub_quiet quiet_space_dot)
  have 14: "re_sub (m_run is_space 2 None [SP]) None s = s"
    using sp2 by (intro re_sub_quiet quiet_m_run[where n = 2]) simp_all
  have 15: "strip s = s" using ends by (rule strip_trimmed)
  show ?thesis
    unfolding clean_text_for_tts_def Let_def
    by (simp only: 1 2 3 4 5 6 7 8 9 10 11 12 13 14 15)
qed

text \<open>
  Claim C5 says that the normalizer is idempotent on its own outputs. It is not: the rule
  of line 205 removes one list marker at the start of a line and leaves the next one, so
  \<open>"- - - a"\<close> is normalized to \<open>"- - a"\<close>, that output to \<open>"- a"\<close>, and that one to
  \<open>"a"\<close>.
\<close>

theorem normalizer_not_idempotent_on_outputs:
  "clean_text_for_tts (py_str ''- - - a'') = py_str ''- - a''
   \<and> clean_text_for_tts (clean_text_for_tts (py_str ''- - a''))
       \<noteq> clean_text_for_tts (py_str ''- - a'')"
proof
  show "clean_text_for_tts (py_str ''- - - a'') = py_str ''- - a''"
    by (simp add: py_eval)
  have a: "clean_text_for_tts (py_str ''- - a'') = py_str ''- a''"
    by (simp add: py_eval)
  have b: "clean_text_for_tts (py_str ''- a'') = py_str ''a''"
    by (simp add: py_eval)
  show "clean_text_for_tts (clean_text_for_tts (py_str ''- - a''))
       \<noteq> clean_text_for_tts (py_str ''- - a'')"
    unfolding a b by (simp add: py_str_def)
qed

text \<open>
  Claim C5, amended: the normalizer is idempotent on fully cleaned input, where fully
  cleaned means that no rule has anything left to do (\<open>fully_cleaned\<close>): the normalizer
  returns such a text unchanged, so normalizing it twice equals normalizing it once. Being
  an output of the normalizer is not enough.
\<close>

theorem normalizer_idempotent_on_fully_cleaned:
  assumes "fully_cleaned x"
  shows "clean_text_for_tts x = x
       \<and> clean_text_for_tts (clean_text_for_tts x) = clean_text_for_tts x"
  using fully_cleaned_fixed[OF assms] by simp

theorem normalizer_idempotent_on_fully_cleaned_witness:
  "fully_cleaned (py_str ''Well done! Next word... ephemeral'')
   \<and> clean_text_for_tts (py_str '' **Well** done!!  Next word... *ephemeral* '')
       = py_str ''Well done! Next word... ephemeral''
   \<and> clean_text_for_tts (py_str ''Well done! Next word... ephemeral'')
       = py_str ''Well done! Next word... ephemeral''
   \<and> clean_text_for_tts (clean_text_for_tts (py_str ''Well done! Next word... ephemeral''))
       = clean_text_for_tts (py_str ''Well done! Next word... ephemeral'')"
proof -
  have f: "fully_cleaned (py_str ''Well done! Next word... ephemeral'')"
    by (simp add: fully_cleaned_def starts_with_bullet_def starts_with_ordinal_def py_eval)
  have c: "clean_text_for_tts (py_str '' **Well** done!!  Next word... *ephemeral* '')
             = py_str ''Well done! Next word... ephemeral''"
    by (simp add: py_eval)
  show ?thesis using f c normalizer_idempotent_on_fully_cleaned[OF f] by blast
qed

end
